theory Spec2Isabelle
  imports Complex_Main
begin

section \<open>Data model of \<open>src/app/page.tsx\<close>\<close>

text \<open>
  The circuit simulator is one React component. Its state is five \<open>useState\<close> cells
  (\<open>gates\<close>, \<open>wires\<close>, \<open>selectedGate\<close>, \<open>connectingFrom\<close>, \<open>dragOffset\<close>); the
  handlers read the cells of the current render and write new values; one \<open>useEffect\<close>
  re-evaluates the circuit. JavaScript numbers are modelled as \<open>real\<close> (coordinates) and
  \<open>int\<close>/\<open>nat\<close> (indices, timestamps); rounding of doubles is not modelled.
\<close>

datatype GateType = AND | OR | NOT | INPUT | OUTPUT

text \<open>\<open>interface Gate\<close>: an entry of \<open>inputs\<close> is \<open>string | null\<close>, \<open>label\<close> is optional.\<close>

record Gate =
  gate_id :: string
  gate_type :: GateType
  gate_x :: real
  gate_y :: real
  gate_inputs :: "string option list"
  gate_output :: bool
  gate_label :: "string option"

text \<open>\<open>interface Wire\<close>, with the two nested objects \<open>from\<close> and \<open>to\<close> flattened.\<close>

record Wire =
  wire_id :: string
  from_gateId :: string
  from_output :: bool
  to_gateId :: string
  to_inputIndex :: int

section \<open>The evaluator\<close>

text \<open>\<open>Array.prototype.find\<close>: the first element satisfying the predicate, or undefined.\<close>

abbreviation find_js :: "('a \<Rightarrow> bool) \<Rightarrow> 'a list \<Rightarrow> 'a option" where
  "find_js P xs \<equiv> List.find P xs"

text \<open>
  \<open>xs.map(f)\<close> where \<open>f\<close> may fail to return: the results in order, or \<open>None\<close> as soon
  as one call does not return.
\<close>

primrec map_calls :: "('a \<Rightarrow> 'b option) \<Rightarrow> 'a list \<Rightarrow> 'b list option" where
  "map_calls f [] = Some []"
| "map_calls f (x # xs) =
     Option.bind (f x) (\<lambda>y. Option.bind (map_calls f xs) (\<lambda>ys. Some (y # ys)))"

lemma map_calls_mono [partial_function_mono]:
  assumes "\<And>x. mono_option (\<lambda>f. F f x)"
  shows "mono_option (\<lambda>f. map_calls (F f) xs)"
  by (induction xs) (auto intro!: partial_function_mono assms)

text \<open>The pairs \<open>(inputGateId, idx)\<close> that \<open>gate.inputs.map\<close> hands to its callback.\<close>

definition slots :: "Gate \<Rightarrow> (string option \<times> int) list" where
  "slots gate = zip (gate_inputs gate) (map int [0..<length (gate_inputs gate)])"

text \<open>
  The \<open>switch\<close> of \<open>calculateGateOutput\<close> on the list \<open>inputValues\<close>. Reading
  \<open>inputValues[0]\<close> of an empty array gives \<open>undefined\<close>, which is falsy. The last
  equation is the \<open>default\<close> branch; an INPUT gate returns before the \<open>switch\<close>.
\<close>

fun gate_function :: "GateType \<Rightarrow> bool list \<Rightarrow> bool" where
  "gate_function AND vs = (length vs = 2 \<and> vs ! 0 \<and> vs ! 1)"
| "gate_function OR vs = (length vs = 2 \<and> (vs ! 0 \<or> vs ! 1))"
| "gate_function NOT vs = (case vs of [] \<Rightarrow> True | v # _ \<Rightarrow> \<not> v)"
| "gate_function OUTPUT vs = (case vs of [] \<Rightarrow> False | v # _ \<Rightarrow> v)"
| "gate_function INPUT vs = False"

text \<open>
  \<open>calculateGateOutput\<close>, closed over the \<open>gates\<close> and \<open>wires\<close> of the render. The
  recursion follows wires and has no guard, so the function is partial: \<open>None\<close> is a call
  that does not return (unbounded recursion). \<open>!inputGateId\<close> holds for \<open>null\<close> and for
  the empty string.
\<close>

partial_function (option) calculateGateOutput :: "Gate list \<Rightarrow> Wire list \<Rightarrow> Gate \<Rightarrow> bool option" where
  "calculateGateOutput gates wires gate =
     (if gate_type gate = INPUT then Some (gate_output gate)
      else Option.bind
        (map_calls (\<lambda>(inputGateId, idx).
            (case inputGateId of
               None \<Rightarrow> Some False
             | Some i \<Rightarrow>
                 if i = [] then Some False
                 else (case find_js (\<lambda>w. to_gateId w = gate_id gate \<and> to_inputIndex w = idx) wires of
                         None \<Rightarrow> Some False
                       | Some sourceWire \<Rightarrow>
                           (case find_js (\<lambda>g. gate_id g = from_gateId sourceWire) gates of
                              None \<Rightarrow> Some False
                            | Some sourceGate \<Rightarrow> calculateGateOutput gates wires sourceGate))))
          (slots gate))
        (\<lambda>inputValues. Some (gate_function (gate_type gate) inputValues)))"

section \<open>The component state\<close>

text \<open>
  The \<open>useState\<close> cells. \<open>connectingFrom\<close> is \<open>{ gateId } | null\<close> and is kept as the
  optional gate id. Two more fields record what the handlers do to the world outside the
  cells: \<open>wires_ref\<close> is the identity of the array held in \<open>wires\<close> (React compares
  effect dependencies with \<open>Object.is\<close>, so a new array with equal contents is a changed
  dependency), and \<open>alerts\<close> is the log of the messages shown with \<open>alert\<close>.
\<close>

record State =
  gates :: "Gate list"
  wires :: "Wire list"
  wires_ref :: nat
  selectedGate :: "string option"
  connectingFrom :: "string option"
  dragOffset :: "real \<times> real"
  alerts :: "string list"

definition initial :: State where
  "initial = \<lparr>gates = [], wires = [], wires_ref = 0, selectedGate = None,
     connectingFrom = None, dragOffset = (0, 0), alerts = []\<rparr>"

text \<open>\<open>!selectedGate\<close> is true for \<open>null\<close> and for the empty string.\<close>

fun truthy :: "string option \<Rightarrow> bool" where
  "truthy None = False"
| "truthy (Some s) = (s \<noteq> [])"

text \<open>The decimal digits of a timestamp, as the template literal prints \<open>Date.now()\<close>.\<close>

fun decimal :: "nat \<Rightarrow> string" where
  "decimal n =
     (if n < 10 then [''0123456789'' ! n]
      else decimal (n div 10) @ [''0123456789'' ! (n mod 10)])"

declare decimal.simps [simp del]

section \<open>The handlers\<close>

text \<open>
  \<open>addGate\<close>; \<open>now\<close> is \<open>Date.now()\<close>, \<open>r1\<close> and \<open>r2\<close> are the two \<open>Math.random()\<close>.
  \<open>newGate\<close> is the object literal of the same name.
\<close>

definition newGate :: "GateType \<Rightarrow> nat \<Rightarrow> real \<Rightarrow> real \<Rightarrow> Gate" where
  "newGate type now r1 r2 = \<lparr>
     gate_id = ''gate-'' @ decimal now,
     gate_type = type,
     gate_x = 100 + r1 * 200,
     gate_y = 100 + r2 * 200,
     gate_inputs = (if type = NOT \<or> type = INPUT then [None]
                    else if type = OUTPUT then [None] else [None, None]),
     gate_output = (if type = INPUT then False else False),
     gate_label = (if type = INPUT then Some ''IN''
                   else if type = OUTPUT then Some ''OUT'' else None)\<rparr>"

definition addGate :: "GateType \<Rightarrow> nat \<Rightarrow> real \<Rightarrow> real \<Rightarrow> State \<Rightarrow> State" where
  "addGate type now r1 r2 s = s\<lparr>gates := gates s @ [newGate type now r1 r2]\<rparr>"

text \<open>
  \<open>updateCircuit\<close>: every gate gets the output computed by \<open>calculateGateOutput\<close> on the
  gates and wires of the render. It returns nothing when one of the evaluations does
  not return.
\<close>

definition updateCircuit :: "State \<Rightarrow> State option" where
  "updateCircuit s =
     map_option (\<lambda>gs. s\<lparr>gates := gs\<rparr>)
       (map_calls
          (\<lambda>gate. map_option (\<lambda>b. gate\<lparr>gate_output := b\<rparr>)
                     (calculateGateOutput (gates s) (wires s) gate))
          (gates s))"

text \<open>The hit test of \<open>handleCanvasMouseDown\<close>; \<open>x\<close>, \<open>y\<close> are canvas coordinates.\<close>

definition hit :: "real \<Rightarrow> real \<Rightarrow> Gate \<Rightarrow> bool" where
  "hit x y gate =
     (if gate_type gate = INPUT \<or> gate_type gate = OUTPUT then
        (let dx = x - (gate_x gate + 20); dy = y - (gate_y gate + 20)
         in sqrt (dx * dx + dy * dy) \<le> 15)
      else x \<ge> gate_x gate \<and> x \<le> gate_x gate + 60 \<and> y \<ge> gate_y gate \<and> y \<le> gate_y gate + 40)"

definition handleCanvasMouseDown :: "real \<Rightarrow> real \<Rightarrow> State \<Rightarrow> State" where
  "handleCanvasMouseDown x y s =
     (case find_js (hit x y) (gates s) of
        Some clickedGate \<Rightarrow>
          s\<lparr>selectedGate := Some (gate_id clickedGate),
            dragOffset := (x - gate_x clickedGate, y - gate_y clickedGate)\<rparr>
      | None \<Rightarrow> s\<lparr>selectedGate := None\<rparr>)"

definition handleCanvasMouseMove :: "real \<Rightarrow> real \<Rightarrow> State \<Rightarrow> State" where
  "handleCanvasMouseMove x y s =
     (if \<not> truthy (selectedGate s) then s
      else s\<lparr>gates := map (\<lambda>gate.
                if Some (gate_id gate) = selectedGate s
                then gate\<lparr>gate_x := x - fst (dragOffset s), gate_y := y - snd (dragOffset s)\<rparr>
                else gate) (gates s)\<rparr>)"

definition handleCanvasMouseUp :: "State \<Rightarrow> State" where
  "handleCanvasMouseUp s = s"

definition toggleInput :: "string \<Rightarrow> State \<Rightarrow> State" where
  "toggleInput gateId s =
     s\<lparr>gates := map (\<lambda>gate.
          if gate_id gate = gateId \<and> gate_type gate = INPUT
          then gate\<lparr>gate_output := \<not> gate_output gate\<rparr>
          else gate) (gates s)\<rparr>"

definition startConnection :: "State \<Rightarrow> State" where
  "startConnection s =
     (if \<not> truthy (selectedGate s) then s
      else (case find_js (\<lambda>g. Some (gate_id g) = selectedGate s) (gates s) of
              None \<Rightarrow> s
            | Some gate \<Rightarrow>
                if gate_type gate = OUTPUT then s
                else s\<lparr>connectingFrom := selectedGate s\<rparr>))"

text \<open>\<open>findIndex\<close> and \<open>indexOf\<close> of JavaScript arrays: the first index, or \<open>-1\<close>.\<close>

fun findIndex :: "('a \<Rightarrow> bool) \<Rightarrow> 'a list \<Rightarrow> int" where
  "findIndex P [] = -1"
| "findIndex P (x # xs) =
     (if P x then 0 else (let i = findIndex P xs in if i = -1 then -1 else i + 1))"

definition indexOf :: "'a list \<Rightarrow> 'a \<Rightarrow> int" where
  "indexOf xs x = findIndex (\<lambda>y. y = x) xs"

text \<open>The free-slot search of \<open>completeConnection\<close>.\<close>

definition availableInputIndex :: "Gate \<Rightarrow> Wire list \<Rightarrow> int" where
  "availableInputIndex toGate ws =
     findIndex (\<lambda>input.
        \<not> list_ex (\<lambda>w. to_gateId w = gate_id toGate
                        \<and> to_inputIndex w = indexOf (gate_inputs toGate) input) ws)
       (gate_inputs toGate)"

definition newWire :: "nat \<Rightarrow> string \<Rightarrow> string \<Rightarrow> int \<Rightarrow> Wire" where
  "newWire now fromId sel idx = \<lparr>
     wire_id = ''wire-'' @ decimal now,
     from_gateId = fromId,
     from_output = True,
     to_gateId = sel,
     to_inputIndex = idx\<rparr>"

definition completeConnection :: "nat \<Rightarrow> State \<Rightarrow> State" where
  "completeConnection now s =
     (case (connectingFrom s, selectedGate s) of
        (Some fromId, Some sel) \<Rightarrow>
          if sel = [] then s
          else (case find_js (\<lambda>g. gate_id g = sel) (gates s) of
                  None \<Rightarrow> s\<lparr>connectingFrom := None\<rparr>
                | Some toGate \<Rightarrow>
                    if gate_type toGate = INPUT then s\<lparr>connectingFrom := None\<rparr>
                    else if availableInputIndex toGate (wires s) = -1
                    then s\<lparr>alerts := alerts s @ [''All inputs are connected''],
                           connectingFrom := None\<rparr>
                    else s\<lparr>wires := wires s @
                              [newWire now fromId sel (availableInputIndex toGate (wires s))],
                           wires_ref := Suc (wires_ref s),
                           connectingFrom := None\<rparr>)
      | _ \<Rightarrow> s)"

definition deleteSelected :: "State \<Rightarrow> State" where
  "deleteSelected s =
     (case selectedGate s of
        None \<Rightarrow> s
      | Some sel \<Rightarrow>
          if sel = [] then s
          else s\<lparr>wires := filter (\<lambda>w. from_gateId w \<noteq> sel \<and> to_gateId w \<noteq> sel) (wires s),
                 wires_ref := Suc (wires_ref s),
                 gates := filter (\<lambda>g. gate_id g \<noteq> sel) (gates s),
                 selectedGate := None\<rparr>)"

definition clearCircuit :: "State \<Rightarrow> State" where
  "clearCircuit s =
     s\<lparr>gates := [], wires := [], wires_ref := Suc (wires_ref s),
       selectedGate := None, connectingFrom := None\<rparr>"

section \<open>The effect and the events\<close>

text \<open>
  The dependency list of the effect that calls \<open>updateCircuit\<close>: the \<open>wires\<close> array and
  the string \<open>gates.filter(g => g.type === 'INPUT').map(g => g.output).join(',')\<close>.
\<close>

fun join_comma :: "string list \<Rightarrow> string" where
  "join_comma [] = []"
| "join_comma [x] = x"
| "join_comma (x # y # ys) = x @ '','' @ join_comma (y # ys)"

definition string_of_bool :: "bool \<Rightarrow> string" where
  "string_of_bool b = (if b then ''true'' else ''false'')"

definition input_key :: "Gate list \<Rightarrow> string" where
  "input_key gs =
     join_comma (map (\<lambda>g. string_of_bool (gate_output g)) (filter (\<lambda>g. gate_type g = INPUT) gs))"

definition effect_deps :: "State \<Rightarrow> nat \<times> string" where
  "effect_deps s = (wires_ref s, input_key (gates s))"

text \<open>
  After the render that follows a handler, React runs the effect when a dependency
  differs from the one of the previous render. \<open>prev\<close> is the state of the previous
  render, \<open>s\<close> the state of the new one.
\<close>

definition useEffect :: "State \<Rightarrow> State \<Rightarrow> State option" where
  "useEffect prev s = (if effect_deps s \<noteq> effect_deps prev then updateCircuit s else Some s)"

text \<open>
  The events of the page: the five \<open>Add Gates\<close> buttons, the mouse on the canvas, the
  buttons of the \<open>Selected Gate\<close> panel and \<open>Clear All\<close>.
\<close>

datatype Event =
    ClickAddGate GateType nat real real
  | CanvasMouseDown real real
  | CanvasMouseMove real real
  | CanvasMouseUp
  | ClickToggleInput
  | ClickConnectFrom
  | ClickConnectTo nat
  | ClickDelete
  | ClickClearAll

text \<open>
  What the page offers: \<open>Math.random()\<close> is in \<open>[0, 1)\<close>; the panel is rendered when
  \<open>selectedGate\<close> is truthy, its \<open>Toggle Input\<close> button when the selected gate is an
  INPUT, its \<open>Connect To\<close> button when \<open>connectingFrom\<close> is set.
\<close>

fun enabled :: "Event \<Rightarrow> State \<Rightarrow> bool" where
  "enabled (ClickAddGate type now r1 r2) s = (0 \<le> r1 \<and> r1 < 1 \<and> 0 \<le> r2 \<and> r2 < 1)"
| "enabled ClickToggleInput s =
     (truthy (selectedGate s) \<and>
      map_option gate_type (find_js (\<lambda>g. Some (gate_id g) = selectedGate s) (gates s)) = Some INPUT)"
| "enabled ClickConnectFrom s = truthy (selectedGate s)"
| "enabled (ClickConnectTo now) s = (truthy (selectedGate s) \<and> connectingFrom s \<noteq> None)"
| "enabled ClickDelete s = truthy (selectedGate s)"
| "enabled _ s = True"

fun handler :: "Event \<Rightarrow> State \<Rightarrow> State" where
  "handler (ClickAddGate type now r1 r2) s = addGate type now r1 r2 s"
| "handler (CanvasMouseDown x y) s = handleCanvasMouseDown x y s"
| "handler (CanvasMouseMove x y) s = handleCanvasMouseMove x y s"
| "handler CanvasMouseUp s = handleCanvasMouseUp s"
| "handler ClickToggleInput s =
     (case selectedGate s of Some sel \<Rightarrow> toggleInput sel s | None \<Rightarrow> s)"
| "handler ClickConnectFrom s = startConnection s"
| "handler (ClickConnectTo now) s = completeConnection now s"
| "handler ClickDelete s = deleteSelected s"
| "handler ClickClearAll s = clearCircuit s"

text \<open>One event: the handler, the render, then the effect if its dependencies changed.\<close>

definition step :: "Event \<Rightarrow> State \<Rightarrow> State option" where
  "step e s = useEffect s (handler e s)"

fun run :: "Event list \<Rightarrow> State \<Rightarrow> State option" where
  "run [] s = Some s"
| "run (e # es) s = (if enabled e s then Option.bind (step e s) (run es) else None)"

inductive reachable :: "State \<Rightarrow> bool" where
  reachable_initial: "reachable initial"
| reachable_step: "reachable s \<Longrightarrow> enabled e s \<Longrightarrow> step e s = Some s' \<Longrightarrow> reachable s'"

section \<open>Predicates used in the statements\<close>

text \<open>No wire terminates at any input slot of the gate.\<close>

definition unconnected :: "Wire list \<Rightarrow> Gate \<Rightarrow> bool" where
  "unconnected ws g =
     (\<forall>i < length (gate_inputs g).
        \<not> list_ex (\<lambda>w. to_gateId w = gate_id g \<and> to_inputIndex w = int i) ws)"

text \<open>Two gates that differ at most in position, output and label.\<close>

definition same_shape :: "Gate \<Rightarrow> Gate \<Rightarrow> bool" where
  "same_shape g g' =
     (gate_id g' = gate_id g \<and> gate_type g' = gate_type g \<and> gate_inputs g' = gate_inputs g)"

text \<open>
  The invariant of the reachable states: gate ids are not empty and every \<open>inputs\<close> entry
  is \<open>null\<close>; every wire ends at slot 0 of a gate that \<open>find\<close> returns and that is not
  an INPUT; no two wires end at the same slot of the same gate.
\<close>

definition well_formed :: "State \<Rightarrow> bool" where
  "well_formed s =
     ((\<forall>g\<in>set (gates s). gate_id g \<noteq> [] \<and> (\<forall>x\<in>set (gate_inputs g). x = None))
      \<and> (\<forall>w\<in>set (wires s). to_inputIndex w = 0
            \<and> (\<exists>g. find_js (\<lambda>g. gate_id g = to_gateId w) (gates s) = Some g
                     \<and> gate_type g \<noteq> INPUT))
      \<and> distinct (map (\<lambda>w. (to_gateId w, to_inputIndex w)) (wires s)))"

text \<open>
  What a full pass may change in a gate: the output of a gate that is not an INPUT (and
  nothing else of the evaluation's concern).
\<close>

definition refreshed :: "Gate \<Rightarrow> Gate \<Rightarrow> bool" where
  "refreshed g g' =
     (same_shape g g' \<and> (gate_type g = INPUT \<longrightarrow> gate_output g' = gate_output g))"

text \<open>A handler call that shows the user a failure: the page has no other channel than \<open>alert\<close>.\<close>

definition reports_failure :: "State \<Rightarrow> State \<Rightarrow> bool" where
  "reports_failure s s' = (alerts s' \<noteq> alerts s)"

section \<open>Two sessions\<close>

text \<open>
  An INPUT is added, selected and toggled to true; an OR gate is added; the INPUT is
  connected to the OR gate. The clicks land inside the gates they select.
\<close>

definition scenario_or :: "Event list" where
  "scenario_or =
     [ClickAddGate INPUT 1 0 0, CanvasMouseDown 120 120, ClickToggleInput,
      ClickAddGate OR 2 (1/2) (1/2), ClickConnectFrom, CanvasMouseDown 210 210,
      ClickConnectTo 3]"

text \<open>A NOT gate is added, selected and connected to itself.\<close>

definition scenario_not_loop :: "Event list" where
  "scenario_not_loop =
     [ClickAddGate NOT 1 0 0, CanvasMouseDown 110 110, ClickConnectFrom, ClickConnectTo 2]"

text \<open>The state after a list of events (the initial state when the events cannot be run).\<close>

definition state_after :: "Event list \<Rightarrow> State" where
  "state_after es = (case run es initial of Some s \<Rightarrow> s | None \<Rightarrow> initial)"

section \<open>Facts about the evaluator\<close>

lemma map_calls_const:
  "\<forall>p\<in>set ps. f p = Some c \<Longrightarrow> map_calls f ps = Some (replicate (length ps) c)"
  by (induction ps) simp_all

lemma map_calls_Some_iff:
  "map_calls f xs = Some ys \<longleftrightarrow> list_all2 (\<lambda>x y. f x = Some y) xs ys"
  by (induction xs arbitrary: ys) (auto simp: list_all2_Cons1 bind_eq_Some_conv)

lemma length_slots: "length (slots g) = length (gate_inputs g)"
  by (simp add: slots_def)

lemma in_slots:
  "p \<in> set (slots g) \<Longrightarrow>
     \<exists>i < length (gate_inputs g). p = (gate_inputs g ! i, int i)"
  by (cases p) (auto simp: slots_def in_set_zip)

lemma gate_function_all_false:
  "gate_function t (replicate n False) = (t = NOT)"
  by (cases t; cases n) (auto simp: nth_Cons')

text \<open>
  When every slot is skipped or finds no wire, \<open>inputValues\<close> is all \<open>false\<close> and the
  recursion is never entered.
\<close>

lemma calculateGateOutput_slots_false:
  assumes "gate_type g \<noteq> INPUT"
    and "\<And>x idx. (x, idx) \<in> set (slots g) \<Longrightarrow> x = None \<or> x = Some [] \<or>
           find_js (\<lambda>w. to_gateId w = gate_id g \<and> to_inputIndex w = idx) ws = None"
  shows "calculateGateOutput gs ws g = Some (gate_type g = NOT)"
proof -
  let ?callback = "\<lambda>(inputGateId, idx).
            (case inputGateId of
               None \<Rightarrow> Some False
             | Some i \<Rightarrow>
                 if i = [] then Some False
                 else (case find_js (\<lambda>w. to_gateId w = gate_id g \<and> to_inputIndex w = idx) ws of
                         None \<Rightarrow> Some False
                       | Some sourceWire \<Rightarrow>
                           (case find_js (\<lambda>g. gate_id g = from_gateId sourceWire) gs of
                              None \<Rightarrow> Some False
                            | Some sourceGate \<Rightarrow> calculateGateOutput gs ws sourceGate)))"
  have "map_calls ?callback (slots g) = Some (replicate (length (slots g)) False)"
  proof (rule map_calls_const, rule ballI)
    fix p assume p: "p \<in> set (slots g)"
    obtain x idx where [simp]: "p = (x, idx)" by (cases p)
    from assms(2)[of x idx] p show "?callback p = Some False"
      by (auto split: option.splits)
  qed
  with assms(1) show ?thesis
    by (subst calculateGateOutput.simps) (simp add: gate_function_all_false)
qed

lemma all_null_eval:
  assumes "\<forall>x\<in>set (gate_inputs g). x = None"
  shows "calculateGateOutput gs ws g =
     Some (if gate_type g = INPUT then gate_output g else gate_type g = NOT)"
proof (cases "gate_type g = INPUT")
  case True
  then show ?thesis by (simp add: calculateGateOutput.simps)
next
  case False
  have "x = None" if "(x, idx) \<in> set (slots g)" for x idx
    using that assms by (auto dest!: in_slots)
  with False show ?thesis
    by (simp add: calculateGateOutput_slots_false)
qed

section \<open>Unconnected slots\<close>

text \<open>
  Claim C6. An AND or OR gate none of whose input slots has a wire evaluates to false, a
  NOT gate whose slot has no wire evaluates to true, and in both cases the evaluation
  returns a value: an unconnected slot reads as false and is not an error. The
  statement holds for every list of gates and wires, whatever the \<open>inputs\<close> entries are.
\<close>

theorem unconnected_gate_output:
  assumes "unconnected ws g"
  shows "(gate_type g = AND \<or> gate_type g = OR \<longrightarrow> calculateGateOutput gs ws g = Some False)
       \<and> (gate_type g = NOT \<longrightarrow> calculateGateOutput gs ws g = Some True)"
proof -
  have "find_js (\<lambda>w. to_gateId w = gate_id g \<and> to_inputIndex w = idx) ws = None"
    if "(x, idx) \<in> set (slots g)" for x idx
    using that assms by (auto dest!: in_slots simp: unconnected_def find_None_iff list_ex_iff)
  then have "gate_type g \<noteq> INPUT \<Longrightarrow> calculateGateOutput gs ws g = Some (gate_type g = NOT)"
    by (simp add: calculateGateOutput_slots_false)
  then show ?thesis by auto
qed

theorem unconnected_gate_output_witness:
  "unconnected [newWire 9 ''gate-1'' ''gate-3'' 0] (newGate AND 2 0 0)
   \<and> calculateGateOutput [newGate AND 2 0 0] [newWire 9 ''gate-1'' ''gate-3'' 0]
         (newGate AND 2 0 0) = Some False
   \<and> unconnected [] (newGate NOT 4 0 0)
   \<and> calculateGateOutput [newGate NOT 4 0 0] [] (newGate NOT 4 0 0) = Some True"
proof -
  have a: "unconnected [newWire 9 ''gate-1'' ''gate-3'' 0] (newGate AND 2 0 0)"
    by (simp add: unconnected_def newGate_def newWire_def decimal.simps)
  have n: "unconnected [] (newGate NOT 4 0 0)"
    by (simp add: unconnected_def)
  from unconnected_gate_output [OF a] unconnected_gate_output [OF n] a n
  show ?thesis by (simp add: newGate_def)
qed

section \<open>The invariant of the reachable states\<close>

lemma list_all2_right_in:
  "list_all2 P xs ys \<Longrightarrow> y \<in> set ys \<Longrightarrow> \<exists>x\<in>set xs. P x y"
  by (induction rule: list_all2_induct) auto

lemma find_js_append:
  "find_js P (xs @ ys) = (case find_js P xs of None \<Rightarrow> find_js P ys | Some x \<Rightarrow> Some x)"
  by (induction xs) auto

lemma find_same_shape:
  assumes "list_all2 same_shape gs gs'"
  shows "rel_option same_shape (find_js (\<lambda>g. gate_id g = i) gs) (find_js (\<lambda>g. gate_id g = i) gs')"
  using assms by (induction rule: list_all2_induct) (auto simp: same_shape_def)

lemma well_formed_same_shape:
  assumes "well_formed s" and "list_all2 same_shape (gates s) gs'"
  shows "well_formed (s\<lparr>gates := gs'\<rparr>)"
proof -
  have 1: "gate_id g' \<noteq> [] \<and> (\<forall>x\<in>set (gate_inputs g'). x = None)" if "g' \<in> set gs'" for g'
  proof -
    from that assms(2) obtain g where "g \<in> set (gates s)" "same_shape g g'"
      by (auto dest: list_all2_right_in)
    with assms(1) show ?thesis by (auto simp: well_formed_def same_shape_def)
  qed
  have 2: "\<exists>g'. find_js (\<lambda>g. gate_id g = to_gateId w) gs' = Some g' \<and> gate_type g' \<noteq> INPUT"
    if "w \<in> set (wires s)" for w
  proof -
    from that assms(1) obtain g where g: "find_js (\<lambda>g. gate_id g = to_gateId w) (gates s) = Some g"
      "gate_type g \<noteq> INPUT" by (auto simp: well_formed_def)
    from find_same_shape[OF assms(2), of "to_gateId w"] g show ?thesis
      by (auto simp: option_rel_Some1 same_shape_def)
  qed
  from assms(1) 1 2 show ?thesis by (simp add: well_formed_def)
qed

lemma updateCircuit_SomeD:
  assumes "updateCircuit s = Some s'"
  shows "\<exists>gs'. s' = s\<lparr>gates := gs'\<rparr> \<and>
        list_all2 (\<lambda>g g'. \<exists>b. calculateGateOutput (gates s) (wires s) g = Some b
                              \<and> g' = g\<lparr>gate_output := b\<rparr>) (gates s) gs'"
proof -
  from assms obtain gs' where s': "s' = s\<lparr>gates := gs'\<rparr>"
    and "map_calls (\<lambda>gate. map_option (\<lambda>b. gate\<lparr>gate_output := b\<rparr>)
           (calculateGateOutput (gates s) (wires s) gate)) (gates s) = Some gs'"
    unfolding updateCircuit_def by auto
  then have "list_all2 (\<lambda>g g'. map_option (\<lambda>b. g\<lparr>gate_output := b\<rparr>)
                (calculateGateOutput (gates s) (wires s) g) = Some g') (gates s) gs'"
    by (simp only: map_calls_Some_iff)
  then have "list_all2 (\<lambda>g g'. \<exists>b. calculateGateOutput (gates s) (wires s) g = Some b
                              \<and> g' = g\<lparr>gate_output := b\<rparr>) (gates s) gs'"
    by (rule list_all2_mono) auto
  with s' show ?thesis by blast
qed

lemma well_formed_updateCircuit:
  assumes "well_formed s" and "updateCircuit s = Some s'"
  shows "well_formed s'"
proof -
  from assms(2) obtain gs' where s': "s' = s\<lparr>gates := gs'\<rparr>"
    and "list_all2 (\<lambda>g g'. \<exists>b. calculateGateOutput (gates s) (wires s) g = Some b
                              \<and> g' = g\<lparr>gate_output := b\<rparr>) (gates s) gs'"
    using updateCircuit_SomeD by blast
  then have "list_all2 same_shape (gates s) gs'"
    by (auto elim!: list_all2_mono simp: same_shape_def)
  with assms(1) show ?thesis unfolding s' by (rule well_formed_same_shape)
qed

lemma list_all2_map_same_shape:
  "(\<And>g. same_shape g (f g)) \<Longrightarrow> list_all2 same_shape gs (map f gs)"
  by (simp add: list_all2_map2 list_all2_same)

lemma well_formed_toggleInput: "well_formed s \<Longrightarrow> well_formed (toggleInput i s)"
proof -
  assume wf: "well_formed s"
  let ?f = "\<lambda>gate. if gate_id gate = i \<and> gate_type gate = INPUT
          then gate\<lparr>gate_output := \<not> gate_output gate\<rparr> else gate"
  have "list_all2 same_shape (gates s) (map ?f (gates s))"
    by (rule list_all2_map_same_shape) (simp add: same_shape_def)
  with wf show ?thesis
    unfolding toggleInput_def by (rule well_formed_same_shape)
qed

lemma well_formed_mouseMove: "well_formed s \<Longrightarrow> well_formed (handleCanvasMouseMove x y s)"
proof -
  assume wf: "well_formed s"
  let ?f = "\<lambda>gate. if Some (gate_id gate) = selectedGate s
                then gate\<lparr>gate_x := x - fst (dragOffset s), gate_y := y - snd (dragOffset s)\<rparr>
                else gate"
  have "list_all2 same_shape (gates s) (map ?f (gates s))"
    by (rule list_all2_map_same_shape) (simp add: same_shape_def)
  from well_formed_same_shape[OF wf this] wf show ?thesis
    by (simp add: handleCanvasMouseMove_def)
qed

lemma well_formed_other_fields [simp]:
  "well_formed (selectedGate_update f1 s) = well_formed s"
  "well_formed (connectingFrom_update f2 s) = well_formed s"
  "well_formed (dragOffset_update f3 s) = well_formed s"
  "well_formed (alerts_update f4 s) = well_formed s"
  "well_formed (wires_ref_update f5 s) = well_formed s"
  by (simp_all add: well_formed_def)

lemma well_formed_mouseDown: "well_formed s \<Longrightarrow> well_formed (handleCanvasMouseDown x y s)"
  by (simp add: handleCanvasMouseDown_def split: option.splits)

lemma well_formed_startConnection: "well_formed s \<Longrightarrow> well_formed (startConnection s)"
  by (simp add: startConnection_def split: option.splits)

lemma newGate_id: "gate_id (newGate t now r1 r2) \<noteq> []"
  by (simp add: newGate_def)

lemma newGate_inputs: "x \<in> set (gate_inputs (newGate t now r1 r2)) \<Longrightarrow> x = None"
  by (auto simp: newGate_def split: if_splits)

lemma well_formed_addGate: "well_formed s \<Longrightarrow> well_formed (addGate t now r1 r2 s)"
  by (auto simp: addGate_def well_formed_def newGate_id find_js_append dest: newGate_inputs)

lemma find_filter_other:
  "i \<noteq> sel \<Longrightarrow> find_js (\<lambda>g. gate_id g = i) (filter (\<lambda>g. gate_id g \<noteq> sel) gs)
     = find_js (\<lambda>g. gate_id g = i) gs"
  by (induction gs) auto


lemma well_formed_deleteSelected: "well_formed s \<Longrightarrow> well_formed (deleteSelected s)"
  by (auto simp: deleteSelected_def well_formed_def find_filter_other distinct_map_filter
      split: option.splits)

lemma well_formed_clearCircuit: "well_formed (clearCircuit s)"
  by (simp add: clearCircuit_def well_formed_def)


lemma findIndex_ge: "findIndex P xs \<ge> -1"
  by (induction xs) (auto simp: Let_def)

lemma findIndex_none: "findIndex P xs = -1 \<longleftrightarrow> (\<forall>x\<in>set xs. \<not> P x)"
proof (induction xs)
  case Nil
  then show ?case by simp
next
  case (Cons x xs)
  from findIndex_ge[of P xs] have "findIndex P xs + 1 \<noteq> -1" by linarith
  with Cons show ?case by (auto simp: Let_def)
qed

lemma findIndex_found:
  "findIndex P xs = i \<Longrightarrow> i \<noteq> -1 \<Longrightarrow>
     0 \<le> i \<and> nat i < length xs \<and> P (xs ! nat i) \<and> (\<forall>j < nat i. \<not> P (xs ! j))"
proof (induction xs arbitrary: i)
  case Nil
  then show ?case by simp
next
  case (Cons x xs)
  show ?case
  proof (cases "P x")
    case True
    with Cons.prems show ?thesis by simp
  next
    case False
    with Cons.prems have i: "findIndex P xs = i - 1" "i - 1 \<noteq> -1"
      by (auto simp: Let_def split: if_splits)
    from Cons.IH[OF this] have ih: "0 \<le> i - 1" "nat (i - 1) < length xs"
      "P (xs ! nat (i - 1))" "\<forall>j < nat (i - 1). \<not> P (xs ! j)" by auto
    then have n: "nat i = Suc (nat (i - 1))" by linarith
    show ?thesis
      using ih False unfolding n by (auto simp: nth_Cons split: nat.splits)
  qed
qed

lemma availableInputIndex_free:
  assumes "availableInputIndex g ws = i" and "i \<noteq> -1"
  shows "\<not> list_ex (\<lambda>w. to_gateId w = gate_id g \<and> to_inputIndex w = i) ws"
proof -
  let ?xs = "gate_inputs g"
  let ?P = "\<lambda>input. \<not> list_ex (\<lambda>w. to_gateId w = gate_id g
                        \<and> to_inputIndex w = indexOf ?xs input) ws"
  from assms have fi: "findIndex ?P ?xs = i" by (simp add: availableInputIndex_def)
  from findIndex_found[OF fi assms(2)]
  have i: "0 \<le> i" "nat i < length ?xs" "?P (?xs ! nat i)" "\<forall>j < nat i. \<not> ?P (?xs ! j)"
    by auto
  define j where "j = indexOf ?xs (?xs ! nat i)"
  have "j \<noteq> -1"
    using i(2) unfolding j_def indexOf_def findIndex_none by auto
  from findIndex_found[OF _ this, of "\<lambda>y. y = ?xs ! nat i" ?xs]
  have j: "0 \<le> j" "nat j < length ?xs" "?xs ! nat j = ?xs ! nat i"
    by (auto simp: j_def indexOf_def)
  have "\<not> nat j < nat i"
  proof
    assume "nat j < nat i"
    with i(4) have "\<not> ?P (?xs ! nat j)" by blast
    with j(3) i(3) show False by simp
  qed
  moreover have "\<not> nat i < nat j"
  proof
    assume lt: "nat i < nat j"
    from findIndex_found[OF _ \<open>j \<noteq> -1\<close>, of "\<lambda>y. y = ?xs ! nat i" ?xs]
    have "\<forall>k < nat j. ?xs ! k \<noteq> ?xs ! nat i" by (auto simp: j_def indexOf_def)
    with lt show False by blast
  qed
  ultimately have "j = i" using i(1) j(1) by linarith
  with i(3) show ?thesis by (simp add: j_def)
qed

lemma availableInputIndex_null:
  assumes "\<forall>x\<in>set (gate_inputs g). x = None"
  shows "availableInputIndex g ws =
     (if gate_inputs g = [] \<or> list_ex (\<lambda>w. to_gateId w = gate_id g \<and> to_inputIndex w = 0) ws
      then -1 else 0)"
proof (cases "gate_inputs g")
  case Nil
  then show ?thesis by (simp add: availableInputIndex_def)
next
  case (Cons x xs)
  with assms have x: "x = None" and xs: "\<forall>y\<in>set xs. y = None" by auto
  have io: "indexOf (None # xs) None = 0" by (simp add: indexOf_def)
  show ?thesis
  proof (cases "list_ex (\<lambda>w. to_gateId w = gate_id g \<and> to_inputIndex w = 0) ws")
    case True
    have "findIndex (\<lambda>input. \<not> list_ex (\<lambda>w. to_gateId w = gate_id g
            \<and> to_inputIndex w = indexOf (None # xs) input) ws) (None # xs) = -1"
      unfolding findIndex_none using xs True io by auto
    with True Cons x show ?thesis by (simp add: availableInputIndex_def)
  next
    case False
    with Cons x io show ?thesis by (simp add: availableInputIndex_def)
  qed
qed

lemma well_formed_completeConnection:
  assumes "well_formed s"
  shows "well_formed (completeConnection now s)"
proof -
  have "well_formed (s\<lparr>wires := wires s @
            [newWire now fromId sel (availableInputIndex toGate (wires s))]\<rparr>)"
    if f: "find_js (\<lambda>g. gate_id g = sel) (gates s) = Some toGate"
      and t: "gate_type toGate \<noteq> INPUT"
      and a: "availableInputIndex toGate (wires s) \<noteq> -1"
    for fromId sel toGate
  proof -
    from f have mem: "toGate \<in> set (gates s)" and id: "gate_id toGate = sel"
      by (auto simp: find_Some_iff)
    from mem assms have "\<forall>x\<in>set (gate_inputs toGate). x = None"
      by (auto simp: well_formed_def)
    from availableInputIndex_null[OF this, of "wires s"] a
    have zero: "availableInputIndex toGate (wires s) = 0" by (auto split: if_splits)
    from availableInputIndex_free[OF refl a]
    have "(sel, availableInputIndex toGate (wires s))
            \<notin> set (map (\<lambda>w. (to_gateId w, to_inputIndex w)) (wires s))"
      by (auto simp: list_ex_iff id)
    with assms f t zero show ?thesis
      by (auto simp: well_formed_def newWire_def)
  qed
  with assms show ?thesis
    by (auto simp: completeConnection_def split: option.splits)
qed

lemma well_formed_handler: "well_formed s \<Longrightarrow> well_formed (handler e s)"
  by (cases e)
     (simp_all add: well_formed_addGate well_formed_mouseDown well_formed_mouseMove
        handleCanvasMouseUp_def well_formed_toggleInput well_formed_startConnection
        well_formed_completeConnection well_formed_deleteSelected well_formed_clearCircuit
        split: option.splits)

lemma well_formed_step:
  "well_formed s \<Longrightarrow> step e s = Some s' \<Longrightarrow> well_formed s'"
  by (auto simp: step_def useEffect_def split: if_splits
      intro: well_formed_handler well_formed_updateCircuit)

lemma well_formed_initial: "well_formed initial"
  by (simp add: well_formed_def initial_def)

lemma reachable_well_formed: "reachable s \<Longrightarrow> well_formed s"
  by (induction rule: reachable.induct) (auto intro: well_formed_initial well_formed_step)

section \<open>Running the two sessions\<close>

lemma decimal_digit: "n < 10 \<Longrightarrow> decimal n = [''0123456789'' ! n]"
  by (simp add: decimal.simps)

lemma sqrt_le_15: "sqrt x \<le> 15 \<longleftrightarrow> x \<le> 225"
proof -
  have "sqrt 225 = 15" by (rule real_sqrt_unique) simp_all
  then show ?thesis by (metis real_sqrt_le_iff)
qed

lemmas run_simps = step_def addGate_def newGate_def newWire_def initial_def useEffect_def
  effect_deps_def input_key_def decimal_digit handleCanvasMouseDown_def hit_def sqrt_le_15
  toggleInput_def string_of_bool_def updateCircuit_def all_null_eval startConnection_def
  completeConnection_def availableInputIndex_def indexOf_def

lemma run_scenario_or:
  "run scenario_or initial = Some
     \<lparr>gates =
        [\<lparr>gate_id = ''gate-1'', gate_type = INPUT, gate_x = 100, gate_y = 100,
          gate_inputs = [None], gate_output = True, gate_label = Some ''IN''\<rparr>,
         \<lparr>gate_id = ''gate-2'', gate_type = OR, gate_x = 200, gate_y = 200,
          gate_inputs = [None, None], gate_output = False, gate_label = None\<rparr>],
      wires =
        [\<lparr>wire_id = ''wire-3'', from_gateId = ''gate-1'', from_output = True,
          to_gateId = ''gate-2'', to_inputIndex = 0\<rparr>],
      wires_ref = 1, selectedGate = Some ''gate-2'', connectingFrom = None,
      dragOffset = (10, 10), alerts = []\<rparr>"
  by (simp add: scenario_or_def run_simps)

lemma run_scenario_not_loop:
  "run scenario_not_loop initial = Some
     \<lparr>gates =
        [\<lparr>gate_id = ''gate-1'', gate_type = NOT, gate_x = 100, gate_y = 100,
          gate_inputs = [None], gate_output = True, gate_label = None\<rparr>],
      wires =
        [\<lparr>wire_id = ''wire-2'', from_gateId = ''gate-1'', from_output = True,
          to_gateId = ''gate-1'', to_inputIndex = 0\<rparr>],
      wires_ref = 1, selectedGate = Some ''gate-1'', connectingFrom = None,
      dragOffset = (10, 10), alerts = []\<rparr>"
  by (simp add: scenario_not_loop_def run_simps)

lemma run_reachable: "reachable s \<Longrightarrow> run es s = Some s' \<Longrightarrow> reachable s'"
proof (induction es arbitrary: s)
  case Nil
  then show ?case by simp
next
  case (Cons e es)
  then show ?case
    by (auto simp: bind_eq_Some_conv split: if_splits intro: reachable_step)
qed

lemma state_after_reachable: "run es initial = Some s \<Longrightarrow> reachable (state_after es)"
  using run_reachable[OF reachable_initial] by (simp add: state_after_def)

lemma state_after_or:
  "state_after scenario_or =
     \<lparr>gates =
        [\<lparr>gate_id = ''gate-1'', gate_type = INPUT, gate_x = 100, gate_y = 100,
          gate_inputs = [None], gate_output = True, gate_label = Some ''IN''\<rparr>,
         \<lparr>gate_id = ''gate-2'', gate_type = OR, gate_x = 200, gate_y = 200,
          gate_inputs = [None, None], gate_output = False, gate_label = None\<rparr>],
      wires =
        [\<lparr>wire_id = ''wire-3'', from_gateId = ''gate-1'', from_output = True,
          to_gateId = ''gate-2'', to_inputIndex = 0\<rparr>],
      wires_ref = 1, selectedGate = Some ''gate-2'', connectingFrom = None,
      dragOffset = (10, 10), alerts = []\<rparr>"
  by (simp add: state_after_def run_scenario_or)

lemma state_after_not_loop:
  "state_after scenario_not_loop =
     \<lparr>gates =
        [\<lparr>gate_id = ''gate-1'', gate_type = NOT, gate_x = 100, gate_y = 100,
          gate_inputs = [None], gate_output = True, gate_label = None\<rparr>],
      wires =
        [\<lparr>wire_id = ''wire-2'', from_gateId = ''gate-1'', from_output = True,
          to_gateId = ''gate-1'', to_inputIndex = 0\<rparr>],
      wires_ref = 1, selectedGate = Some ''gate-1'', connectingFrom = None,
      dragOffset = (10, 10), alerts = []\<rparr>"
  by (simp add: state_after_def run_scenario_not_loop)

section \<open>Termination of the evaluation in reachable states\<close>

lemma well_formed_updateCircuit_total:
  assumes "well_formed s"
  shows "updateCircuit s = Some (s\<lparr>gates := map (\<lambda>g. g\<lparr>gate_output :=
           (if gate_type g = INPUT then gate_output g else gate_type g = NOT)\<rparr>) (gates s)\<rparr>)"
proof -
  have "map_calls (\<lambda>gate. map_option (\<lambda>b. gate\<lparr>gate_output := b\<rparr>)
           (calculateGateOutput (gates s) (wires s) gate)) (gates s)
        = Some (map (\<lambda>g. g\<lparr>gate_output :=
           (if gate_type g = INPUT then gate_output g else gate_type g = NOT)\<rparr>) (gates s))"
    unfolding map_calls_Some_iff list_all2_map2
    using assms by (intro list_all2_same[THEN iffD2] ballI) (simp add: well_formed_def all_null_eval)
  then show ?thesis by (simp add: updateCircuit_def)
qed

lemma well_formed_progress:
  assumes "well_formed s"
  shows "\<exists>s'. step e s = Some s'"
proof -
  have "well_formed (handler e s)" using assms by (rule well_formed_handler)
  from well_formed_updateCircuit_total[OF this] show ?thesis
    by (simp add: step_def useEffect_def)
qed

text \<open>
  Claim C9. In every reachable state every entry of every gate's \<open>inputs\<close> array is
  \<open>null\<close>, so the evaluation of a gate skips every slot before the wire lookup: its
  result is the same for any other list of gates and of wires.
\<close>

theorem inputs_always_null:
  assumes "reachable s" and "g \<in> set (gates s)"
  shows "(\<forall>x\<in>set (gate_inputs g). x = None)
       \<and> calculateGateOutput (gates s) (wires s) g = calculateGateOutput gs ws g"
proof -
  from assms have n: "\<forall>x\<in>set (gate_inputs g). x = None"
    by (auto dest!: reachable_well_formed simp: well_formed_def)
  then show ?thesis by (simp add: all_null_eval)
qed

theorem inputs_always_null_witness:
  "reachable (state_after scenario_or)
   \<and> gates (state_after scenario_or) ! 1 \<in> set (gates (state_after scenario_or))
   \<and> gate_inputs (gates (state_after scenario_or) ! 1) = [None, None]
   \<and> to_gateId (wires (state_after scenario_or) ! 0) = gate_id (gates (state_after scenario_or) ! 1)
   \<and> calculateGateOutput (gates (state_after scenario_or)) (wires (state_after scenario_or))
        (gates (state_after scenario_or) ! 1)
      = calculateGateOutput [] [] (gates (state_after scenario_or) ! 1)"
proof -
  have r: "reachable (state_after scenario_or)"
    by (rule state_after_reachable, rule run_scenario_or)
  have m: "gates (state_after scenario_or) ! 1 \<in> set (gates (state_after scenario_or))"
    by (simp add: state_after_or)
  from inputs_always_null [OF r m, of "[]" "[]"] r m show ?thesis
    by (simp add: state_after_or)
qed

text \<open>
  The evaluator itself has no guard: on a NOT gate wired to itself whose \<open>inputs\<close> entry
  is set (a state that no session reaches) the evaluation does not return.
\<close>

lemma set_input_self_loop_diverges:
  "calculateGateOutput
     [(newGate NOT 1 0 0)\<lparr>gate_inputs := [Some ''gate-1'']\<rparr>]
     [newWire 2 ''gate-1'' ''gate-1'' 0]
     ((newGate NOT 1 0 0)\<lparr>gate_inputs := [Some ''gate-1'']\<rparr>) = None"
proof -
  let ?g = "(newGate NOT 1 0 0)\<lparr>gate_inputs := [Some ''gate-1'']\<rparr>"
  let ?ws = "[newWire 2 ''gate-1'' ''gate-1'' 0]"
  have "False" if "calculateGateOutput [?g] ?ws ?g = Some y" for y
  proof -
    have "gs = [?g] \<and> ws = ?ws \<and> g = ?g \<longrightarrow> False"
      if "calculateGateOutput gs ws g = Some b" for gs ws g b
      using that
    proof (rule calculateGateOutput.raw_induct
          [where P = "\<lambda>gs ws g b. gs = [?g] \<and> ws = ?ws \<and> g = ?g \<longrightarrow> False", rotated],
        goal_cases)
      case (1 calc gs ws g b)
      show ?case
      proof
        assume eq: "gs = [?g] \<and> ws = ?ws \<and> g = ?g"
        with 1(2) obtain v where "calc [?g] ?ws ?g = Some v"
          by (auto simp: newGate_def newWire_def decimal_digit slots_def bind_eq_Some_conv)
        from 1(1)[OF this] show False by simp
      qed
    qed
    from this[OF that] show False by simp
  qed
  then show ?thesis by (cases "calculateGateOutput [?g] ?ws ?g") auto
qed

text \<open>
  Claim C5. In every reachable state, wire cycles included, the evaluation of every gate
  of the graph returns a boolean, the full pass \<open>updateCircuit\<close> returns, and every
  event has a next state. The session that wires a NOT gate into its own slot is the
  example: its gate evaluates to true.
\<close>

theorem evaluation_terminates:
  assumes "reachable s"
  shows "(\<forall>g\<in>set (gates s). \<exists>b. calculateGateOutput (gates s) (wires s) g = Some b)
       \<and> (\<exists>s'. updateCircuit s = Some s')
       \<and> (\<exists>s'. step e s = Some s')"
proof -
  from assms have wf: "well_formed s" by (rule reachable_well_formed)
  then have "\<forall>g\<in>set (gates s). \<exists>b. calculateGateOutput (gates s) (wires s) g = Some b"
    by (simp add: well_formed_def all_null_eval)
  moreover from wf have "\<exists>s'. updateCircuit s = Some s'"
    by (simp add: well_formed_updateCircuit_total)
  moreover from wf have "\<exists>s'. step e s = Some s'" by (rule well_formed_progress)
  ultimately show ?thesis by blast
qed

theorem evaluation_terminates_witness:
  "reachable (state_after scenario_not_loop)
   \<and> from_gateId (wires (state_after scenario_not_loop) ! 0) = ''gate-1''
   \<and> to_gateId (wires (state_after scenario_not_loop) ! 0) = ''gate-1''
   \<and> gate_id (gates (state_after scenario_not_loop) ! 0) = ''gate-1''
   \<and> calculateGateOutput (gates (state_after scenario_not_loop))
        (wires (state_after scenario_not_loop)) (gates (state_after scenario_not_loop) ! 0)
      = Some True
   \<and> updateCircuit (state_after scenario_not_loop) = Some (state_after scenario_not_loop)
   \<and> step CanvasMouseUp (state_after scenario_not_loop) = Some (state_after scenario_not_loop)"
proof -
  have r: "reachable (state_after scenario_not_loop)"
    by (rule state_after_reachable, rule run_scenario_not_loop)
  from evaluation_terminates [OF r, of CanvasMouseUp] r show ?thesis
    by (simp add: state_after_not_loop all_null_eval updateCircuit_def step_def useEffect_def
        handleCanvasMouseUp_def)
qed

section \<open>The free-slot search\<close>

lemma occupied_no_free_slot:
  assumes "well_formed s" and "find_js (\<lambda>g. gate_id g = i) (gates s) = Some toGate"
    and "list_ex (\<lambda>w. to_gateId w = i \<and> to_inputIndex w = 0) (wires s)"
  shows "availableInputIndex toGate (wires s) = -1"
proof -
  from assms(2) have "toGate \<in> set (gates s)" "gate_id toGate = i"
    by (auto simp: find_Some_iff)
  with assms(1,3) show ?thesis
    by (subst availableInputIndex_null) (auto simp: well_formed_def)
qed

text \<open>
  In every state, reachable or not, the slot that \<open>completeConnection\<close> picks has no
  wire: a handler call never gives a slot a second driver.
\<close>

lemma completeConnection_single_driver:
  assumes "distinct (map (\<lambda>w. (to_gateId w, to_inputIndex w)) (wires s))"
  shows "distinct (map (\<lambda>w. (to_gateId w, to_inputIndex w)) (wires (completeConnection now s)))"
proof -
  have "(sel, availableInputIndex toGate (wires s))
          \<notin> (\<lambda>w. (to_gateId w, to_inputIndex w)) ` set (wires s)"
    if "find_js (\<lambda>g. gate_id g = sel) (gates s) = Some toGate"
      and "availableInputIndex toGate (wires s) \<noteq> -1" for sel toGate
  proof -
    from that(1) have "gate_id toGate = sel" by (auto simp: find_Some_iff)
    with availableInputIndex_free[OF refl that(2)] show ?thesis
      by (auto simp: list_ex_iff)
  qed
  with assms show ?thesis
    by (auto simp: completeConnection_def newWire_def split: option.splits)
qed

text \<open>
  Claim C10. In every reachable state every wire ends at slot 0; the free-slot search
  returns 0 or -1 for every gate of the graph; and when slot 0 of the selected gate has
  a wire, \<open>completeConnection\<close> adds no wire.
\<close>

theorem wires_only_at_slot_zero:
  assumes "reachable s"
  shows "(\<forall>w\<in>set (wires s). to_inputIndex w = 0)
       \<and> (\<forall>g\<in>set (gates s). availableInputIndex g (wires s) = 0
                               \<or> availableInputIndex g (wires s) = -1)
       \<and> (list_ex (\<lambda>w. to_gateId w = i \<and> to_inputIndex w = 0) (wires s)
            \<and> selectedGate s = Some i
            \<longrightarrow> wires (completeConnection now s) = wires s)"
proof -
  from assms have wf: "well_formed s" by (rule reachable_well_formed)
  then have 1: "\<forall>w\<in>set (wires s). to_inputIndex w = 0" by (simp add: well_formed_def)
  from wf have 2: "\<forall>g\<in>set (gates s). availableInputIndex g (wires s) = 0
                               \<or> availableInputIndex g (wires s) = -1"
    by (auto simp: well_formed_def availableInputIndex_null)
  have 3: "wires (completeConnection now s) = wires s"
    if "list_ex (\<lambda>w. to_gateId w = i \<and> to_inputIndex w = 0) (wires s)" "selectedGate s = Some i"
    using that occupied_no_free_slot[OF wf _ that(1)]
    by (auto simp: completeConnection_def split: option.splits)
  from 1 2 3 show ?thesis by blast
qed

theorem wires_only_at_slot_zero_witness:
  "reachable (state_after scenario_or)
   \<and> to_inputIndex (wires (state_after scenario_or) ! 0) = 0
   \<and> availableInputIndex (gates (state_after scenario_or) ! 0) (wires (state_after scenario_or)) = 0
   \<and> availableInputIndex (gates (state_after scenario_or) ! 1) (wires (state_after scenario_or)) = -1
   \<and> list_ex (\<lambda>w. to_gateId w = ''gate-2'' \<and> to_inputIndex w = 0) (wires (state_after scenario_or))
   \<and> selectedGate (state_after scenario_or) = Some ''gate-2''
   \<and> wires (completeConnection 4 (state_after scenario_or)) = wires (state_after scenario_or)"
proof -
  have r: "reachable (state_after scenario_or)"
    by (rule state_after_reachable, rule run_scenario_or)
  from wires_only_at_slot_zero [OF r, of "''gate-2''" 4] r show ?thesis
    by (simp add: state_after_or availableInputIndex_def indexOf_def)
qed

text \<open>
  Claim C2. In a reachable state in which a wire ends at a slot of a gate, connecting
  another wire to that gate fails: \<open>completeConnection\<close> shows the alert
  \<open>All inputs are connected\<close> and changes neither gates nor wires, the effect does
  not run, and no two wires end at the same slot of the same gate. The handler chooses
  the slot itself; in a reachable state a wire can only end at slot 0.
\<close>

theorem second_wire_rejected:
  assumes "reachable s" and "w \<in> set (wires s)"
    and "selectedGate s = Some (to_gateId w)" and "connectingFrom s = Some fromId"
  shows "completeConnection now s =
           s\<lparr>alerts := alerts s @ [''All inputs are connected''], connectingFrom := None\<rparr>
       \<and> step (ClickConnectTo now) s = Some (completeConnection now s)
       \<and> gates (completeConnection now s) = gates s
       \<and> wires (completeConnection now s) = wires s
       \<and> distinct (map (\<lambda>w. (to_gateId w, to_inputIndex w)) (wires (completeConnection now s)))"
proof -
  from assms(1) have wf: "well_formed s" by (rule reachable_well_formed)
  with assms(2) obtain toGate where
    f: "find_js (\<lambda>g. gate_id g = to_gateId w) (gates s) = Some toGate"
    and t: "gate_type toGate \<noteq> INPUT" and z: "to_inputIndex w = 0"
    by (auto simp: well_formed_def)
  from f have "toGate \<in> set (gates s)" "gate_id toGate = to_gateId w"
    by (auto simp: find_Some_iff)
  with wf have ne: "to_gateId w \<noteq> []" by (auto simp: well_formed_def)
  from assms(2) z have "list_ex (\<lambda>v. to_gateId v = to_gateId w \<and> to_inputIndex v = 0) (wires s)"
    by (auto simp: list_ex_iff)
  from occupied_no_free_slot[OF wf f this]
  have cc: "completeConnection now s =
           s\<lparr>alerts := alerts s @ [''All inputs are connected''], connectingFrom := None\<rparr>"
    using assms(3,4) f t ne by (simp add: completeConnection_def)
  moreover have "step (ClickConnectTo now) s = Some (completeConnection now s)"
    unfolding cc by (simp add: step_def useEffect_def effect_deps_def cc)
  moreover from wf have "distinct (map (\<lambda>w. (to_gateId w, to_inputIndex w)) (wires s))"
    by (simp add: well_formed_def)
  ultimately show ?thesis by simp
qed

theorem second_wire_rejected_witness:
  "reachable (startConnection (state_after scenario_or))
   \<and> wires (startConnection (state_after scenario_or)) ! 0
        \<in> set (wires (startConnection (state_after scenario_or)))
   \<and> selectedGate (startConnection (state_after scenario_or))
        = Some (to_gateId (wires (startConnection (state_after scenario_or)) ! 0))
   \<and> connectingFrom (startConnection (state_after scenario_or)) = Some ''gate-2''
   \<and> alerts (completeConnection 4 (startConnection (state_after scenario_or)))
        = [''All inputs are connected'']
   \<and> gates (completeConnection 4 (startConnection (state_after scenario_or)))
        = gates (state_after scenario_or)
   \<and> wires (completeConnection 4 (startConnection (state_after scenario_or)))
        = wires (state_after scenario_or)"
proof -
  have "run (scenario_or @ [ClickConnectFrom]) initial
          = Some (startConnection (state_after scenario_or))"
    by (simp add: scenario_or_def run_simps state_after_def)
  from run_reachable[OF reachable_initial this]
  have r: "reachable (startConnection (state_after scenario_or))" .
  have m: "wires (startConnection (state_after scenario_or)) ! 0
        \<in> set (wires (startConnection (state_after scenario_or)))"
    by (simp add: state_after_or startConnection_def)
  have sel: "selectedGate (startConnection (state_after scenario_or))
        = Some (to_gateId (wires (startConnection (state_after scenario_or)) ! 0))"
    by (simp add: state_after_or startConnection_def)
  have c: "connectingFrom (startConnection (state_after scenario_or)) = Some ''gate-2''"
    by (simp add: state_after_or startConnection_def)
  from second_wire_rejected [OF r m sel c, of 4] r m sel c show ?thesis
    by (simp add: state_after_or startConnection_def)
qed

section \<open>Removing a gate\<close>

lemma updateCircuit_wires: "updateCircuit s = Some s' \<Longrightarrow> wires s' = wires s"
  by (auto dest!: updateCircuit_SomeD)

lemma updateCircuit_gate_ids:
  "updateCircuit s = Some s' \<Longrightarrow> gate_id ` set (gates s') = gate_id ` set (gates s)"
proof -
  assume "updateCircuit s = Some s'"
  then obtain gs' where s': "s' = s\<lparr>gates := gs'\<rparr>"
    and "list_all2 (\<lambda>g g'. \<exists>b. calculateGateOutput (gates s) (wires s) g = Some b
                              \<and> g' = g\<lparr>gate_output := b\<rparr>) (gates s) gs'"
    using updateCircuit_SomeD by blast
  then have "list_all2 (\<lambda>g g'. gate_id g = gate_id g') (gates s) gs'"
    by (auto elim!: list_all2_mono)
  then have "map gate_id (gates s) = map gate_id gs'"
    by (simp add: list.rel_eq[symmetric] list.rel_map)
  then have "set (map gate_id (gates s)) = set (map gate_id gs')" by simp
  then show ?thesis by (simp add: s')
qed

text \<open>
  Claim C4. \<open>deleteSelected\<close> with gate \<open>i\<close> selected removes, in the one state it
  returns, the gates named \<open>i\<close> and every wire whose source or destination is \<open>i\<close>, and
  keeps the other wires; the state after the whole event (handler, render and effect)
  has no wire and no gate that names \<open>i\<close>. Gate ids are never empty.
\<close>

theorem delete_cascades:
  assumes "selectedGate s = Some i" and "i \<noteq> []"
  shows "wires (deleteSelected s) = filter (\<lambda>w. from_gateId w \<noteq> i \<and> to_gateId w \<noteq> i) (wires s)
       \<and> gates (deleteSelected s) = filter (\<lambda>g. gate_id g \<noteq> i) (gates s)
       \<and> (\<forall>w\<in>set (wires (deleteSelected s)). from_gateId w \<noteq> i \<and> to_gateId w \<noteq> i)
       \<and> (\<forall>s'. step ClickDelete s = Some s' \<longrightarrow>
             wires s' = wires (deleteSelected s)
             \<and> (\<forall>w\<in>set (wires s'). from_gateId w \<noteq> i \<and> to_gateId w \<noteq> i)
             \<and> (\<forall>g\<in>set (gates s'). gate_id g \<noteq> i))"
proof -
  from assms have d: "deleteSelected s =
      s\<lparr>wires := filter (\<lambda>w. from_gateId w \<noteq> i \<and> to_gateId w \<noteq> i) (wires s),
        wires_ref := Suc (wires_ref s),
        gates := filter (\<lambda>g. gate_id g \<noteq> i) (gates s),
        selectedGate := None\<rparr>"
    by (simp add: deleteSelected_def)
  have w: "wires (deleteSelected s) = filter (\<lambda>w. from_gateId w \<noteq> i \<and> to_gateId w \<noteq> i) (wires s)"
    and g: "gates (deleteSelected s) = filter (\<lambda>g. gate_id g \<noteq> i) (gates s)"
    by (simp_all add: d)
  have st: "wires s' = wires (deleteSelected s) \<and> (\<forall>g\<in>set (gates s'). gate_id g \<noteq> i)"
    if "step ClickDelete s = Some s'" for s'
  proof -
    from that have u: "updateCircuit (deleteSelected s) = Some s'"
      by (simp add: step_def useEffect_def effect_deps_def d)
    from updateCircuit_gate_ids[OF u] g have "i \<notin> gate_id ` set (gates s')" by auto
    with updateCircuit_wires[OF u] show ?thesis by auto
  qed
  from w g st show ?thesis by auto
qed

theorem delete_cascades_witness:
  "selectedGate (state_after scenario_or) = Some ''gate-2'' \<and> ''gate-2'' \<noteq> []
   \<and> to_gateId (wires (state_after scenario_or) ! 0) = ''gate-2''
   \<and> wires (deleteSelected (state_after scenario_or)) = []
   \<and> map gate_id (gates (deleteSelected (state_after scenario_or))) = [''gate-1'']
   \<and> map_option wires (step ClickDelete (state_after scenario_or)) = Some []
   \<and> map_option (map gate_id \<circ> gates) (step ClickDelete (state_after scenario_or))
        = Some [''gate-1'']"
proof -
  have sel: "selectedGate (state_after scenario_or) = Some ''gate-2''"
    by (simp add: state_after_or)
  have ne: "''gate-2'' \<noteq> []" by simp
  from delete_cascades [OF sel ne] sel show ?thesis
    by (simp add: state_after_or run_simps deleteSelected_def)
qed

section \<open>Toggling a gate that is not an INPUT\<close>

text \<open>
  Claim C7, as the code has it. \<open>toggleInput\<close> on an id that names no INPUT gate is
  a silent no-op: the state it returns is the state it was given, no failure is shown,
  and the page does not offer the \<open>Toggle Input\<close> button when such a gate is selected.
\<close>

theorem toggle_non_input_is_silent:
  assumes "\<forall>g\<in>set (gates s). gate_id g = i \<longrightarrow> gate_type g \<noteq> INPUT"
  shows "toggleInput i s = s
       \<and> \<not> reports_failure s (toggleInput i s)
       \<and> \<not> (enabled ClickToggleInput s \<and> selectedGate s = Some i)"
proof -
  have "map (\<lambda>gate. if gate_id gate = i \<and> gate_type gate = INPUT
          then gate\<lparr>gate_output := \<not> gate_output gate\<rparr> else gate) (gates s) = gates s"
    using assms by (intro map_idI) auto
  then have t: "toggleInput i s = s" by (simp add: toggleInput_def)
  have "\<not> (enabled ClickToggleInput s \<and> selectedGate s = Some i)"
  proof
    assume e: "enabled ClickToggleInput s \<and> selectedGate s = Some i"
    then obtain g where "find_js (\<lambda>g. Some (gate_id g) = selectedGate s) (gates s) = Some g"
      "gate_type g = INPUT" by auto
    with e have "g \<in> set (gates s)" "gate_id g = i" "gate_type g = INPUT"
      by (auto simp: find_Some_iff)
    with assms show False by auto
  qed
  with t show ?thesis by (simp add: reports_failure_def)
qed

theorem toggle_non_input_is_silent_witness:
  "gates (addGate NOT 1 0 0 initial) = [newGate NOT 1 0 0]
   \<and> gate_id (newGate NOT 1 0 0) = ''gate-1''
   \<and> gate_type (newGate NOT 1 0 0) = NOT
   \<and> toggleInput ''gate-1'' (addGate NOT 1 0 0 initial) = addGate NOT 1 0 0 initial
   \<and> \<not> reports_failure (addGate NOT 1 0 0 initial)
          (toggleInput ''gate-1'' (addGate NOT 1 0 0 initial))"
proof -
  have "\<forall>g\<in>set (gates (addGate NOT 1 0 0 initial)).
          gate_id g = ''gate-1'' \<longrightarrow> gate_type g \<noteq> INPUT"
    by (simp add: addGate_def newGate_def initial_def)
  from toggle_non_input_is_silent [OF this] show ?thesis
    by (simp add: addGate_def newGate_def initial_def decimal_digit reports_failure_def
        toggleInput_def)
qed

text \<open>
  The claim as stated asks for a failure that the caller observes. With a NOT gate
  \<open>gate-1\<close> in the graph, \<open>toggleInput\<close> on \<open>gate-1\<close> reports none.
\<close>

theorem toggle_non_input_counterexample:
  "gates (addGate NOT 1 0 0 initial) = [newGate NOT 1 0 0]
   \<and> gate_id (newGate NOT 1 0 0) = ''gate-1''
   \<and> gate_type (newGate NOT 1 0 0) = NOT
   \<and> \<not> reports_failure (addGate NOT 1 0 0 initial)
          (toggleInput ''gate-1'' (addGate NOT 1 0 0 initial))"
  by (simp add: addGate_def newGate_def initial_def decimal_digit reports_failure_def
      toggleInput_def)

section \<open>The full pass\<close>

lemma map_calls_transfer:
  "map_calls f xs = Some ys \<Longrightarrow> (\<And>x y. x \<in> set xs \<Longrightarrow> f x = Some y \<Longrightarrow> f' x = Some y)
     \<Longrightarrow> map_calls f' xs = Some ys"
  by (induction xs arbitrary: ys) (auto simp: bind_eq_Some_conv)

lemma find_refreshed:
  assumes "list_all2 refreshed gs gs'"
  shows "rel_option refreshed (find_js (\<lambda>g. gate_id g = i) gs) (find_js (\<lambda>g. gate_id g = i) gs')"
  using assms by (induction rule: list_all2_induct) (auto simp: refreshed_def same_shape_def)

lemma calculateGateOutput_refreshed_aux:
  assumes "calculateGateOutput gs ws g = Some b"
  shows "\<forall>gs' g'. list_all2 refreshed gs gs' \<longrightarrow> refreshed g g'
           \<longrightarrow> calculateGateOutput gs' ws g' = Some b"
proof (rule calculateGateOutput.raw_induct
    [where P = "\<lambda>gs ws g b. \<forall>gs' g'. list_all2 refreshed gs gs' \<longrightarrow> refreshed g g'
           \<longrightarrow> calculateGateOutput gs' ws g' = Some b", OF _ assms], intro allI impI)
  fix calc gs ws g b gs' g'
  assume IH: "\<And>gs ws g b. calc gs ws g = Some b \<Longrightarrow>
           \<forall>gs' g'. list_all2 refreshed gs gs' \<longrightarrow> refreshed g g'
           \<longrightarrow> calculateGateOutput gs' ws g' = Some b"
    and hyps: "(if gate_type g = INPUT then Some (gate_output g)
      else Option.bind
        (map_calls (\<lambda>(inputGateId, idx).
            (case inputGateId of
               None \<Rightarrow> Some False
             | Some i \<Rightarrow>
                 if i = [] then Some False
                 else (case find_js (\<lambda>w. to_gateId w = gate_id g \<and> to_inputIndex w = idx) ws of
                         None \<Rightarrow> Some False
                       | Some sourceWire \<Rightarrow>
                           (case find_js (\<lambda>g. gate_id g = from_gateId sourceWire) gs of
                              None \<Rightarrow> Some False
                            | Some sourceGate \<Rightarrow> calc gs ws sourceGate))))
          (slots g))
        (\<lambda>inputValues. Some (gate_function (gate_type g) inputValues))) = Some b"
    and rel: "list_all2 refreshed gs gs'" and rg: "refreshed g g'"
  from rg have shape: "gate_id g' = gate_id g" "gate_type g' = gate_type g"
    "gate_inputs g' = gate_inputs g" by (auto simp: refreshed_def same_shape_def)
  then have sl: "slots g' = slots g" by (simp add: slots_def)
  show "calculateGateOutput gs' ws g' = Some b"
  proof (cases "gate_type g = INPUT")
    case True
    with hyps rg shape show ?thesis
      by (subst calculateGateOutput.simps) (simp add: refreshed_def)
  next
    case False
    let ?cb = "\<lambda>(inputGateId, idx).
            (case inputGateId of
               None \<Rightarrow> Some False
             | Some i \<Rightarrow>
                 if i = [] then Some False
                 else (case find_js (\<lambda>w. to_gateId w = gate_id g \<and> to_inputIndex w = idx) ws of
                         None \<Rightarrow> Some False
                       | Some sourceWire \<Rightarrow>
                           (case find_js (\<lambda>g. gate_id g = from_gateId sourceWire) gs of
                              None \<Rightarrow> Some False
                            | Some sourceGate \<Rightarrow> calc gs ws sourceGate)))"
    let ?cb' = "\<lambda>(inputGateId, idx).
            (case inputGateId of
               None \<Rightarrow> Some False
             | Some i \<Rightarrow>
                 if i = [] then Some False
                 else (case find_js (\<lambda>w. to_gateId w = gate_id g' \<and> to_inputIndex w = idx) ws of
                         None \<Rightarrow> Some False
                       | Some sourceWire \<Rightarrow>
                           (case find_js (\<lambda>g. gate_id g = from_gateId sourceWire) gs' of
                              None \<Rightarrow> Some False
                            | Some sourceGate \<Rightarrow> calculateGateOutput gs' ws sourceGate)))"
    from False hyps obtain ivs where ivs: "map_calls ?cb (slots g) = Some ivs"
      and b: "b = gate_function (gate_type g) ivs"
      by (auto simp: bind_eq_Some_conv)
    have "map_calls ?cb' (slots g) = Some ivs"
    proof (rule map_calls_transfer[OF ivs])
      fix p v assume "p \<in> set (slots g)" and v: "?cb p = Some v"
      obtain x idx where p: "p = (x, idx)" by (cases p)
      show "?cb' p = Some v"
      proof (cases "x = None \<or> x = Some [] \<or>
          find_js (\<lambda>w. to_gateId w = gate_id g \<and> to_inputIndex w = idx) ws = None")
        case True
        with v p shape show ?thesis by (auto split: option.splits)
      next
        case False
        then obtain i sw where x: "x = Some i" "i \<noteq> []"
          and sw: "find_js (\<lambda>w. to_gateId w = gate_id g \<and> to_inputIndex w = idx) ws = Some sw"
          by auto
        from find_refreshed[OF rel, of "from_gateId sw"]
        show ?thesis
        proof (cases rule: option.rel_cases)
          case None
          with v p x sw shape show ?thesis by simp
        next
          case (Some sg sg')
          with v p x sw have "calc gs ws sg = Some v" by simp
          from IH[OF this] rel Some p x sw shape show ?thesis by simp
        qed
      qed
    qed
    with False b shape sl show ?thesis
      by (subst calculateGateOutput.simps) simp
  qed
qed


lemma calculateGateOutput_refreshed:
  "calculateGateOutput gs ws g = Some b \<Longrightarrow> list_all2 refreshed gs gs' \<Longrightarrow> refreshed g g'
     \<Longrightarrow> calculateGateOutput gs' ws g' = Some b"
  using calculateGateOutput_refreshed_aux by blast

lemma updateCircuit_refreshed:
  assumes "updateCircuit s = Some s'"
  shows "wires s' = wires s \<and>
     list_all2 (\<lambda>g g'. refreshed g g' \<and>
        calculateGateOutput (gates s) (wires s) g = Some (gate_output g')) (gates s) (gates s')"
proof -
  from updateCircuit_SomeD[OF assms] obtain gs' where s': "s' = s\<lparr>gates := gs'\<rparr>"
    and l: "list_all2 (\<lambda>g g'. \<exists>b. calculateGateOutput (gates s) (wires s) g = Some b
                              \<and> g' = g\<lparr>gate_output := b\<rparr>) (gates s) gs'"
    by blast
  have "refreshed g g' \<and> calculateGateOutput (gates s) (wires s) g = Some (gate_output g')"
    if "calculateGateOutput (gates s) (wires s) g = Some b" "g' = g\<lparr>gate_output := b\<rparr>"
    for g g' b
  proof (cases "gate_type g = INPUT")
    case True
    with that(1) have "b = gate_output g" by (simp add: calculateGateOutput.simps)
    with that show ?thesis by (simp add: refreshed_def same_shape_def)
  next
    case False
    with that show ?thesis by (simp add: refreshed_def same_shape_def)
  qed
  with l have "list_all2 (\<lambda>g g'. refreshed g g' \<and>
        calculateGateOutput (gates s) (wires s) g = Some (gate_output g')) (gates s) gs'"
    by (auto elim!: list_all2_mono)
  then show ?thesis by (simp add: s')
qed

lemma updateCircuit_fresh:
  assumes "updateCircuit s = Some s'" and "g' \<in> set (gates s')"
  shows "calculateGateOutput (gates s') (wires s') g' = Some (gate_output g')"
proof -
  from updateCircuit_refreshed[OF assms(1)] have w: "wires s' = wires s"
    and l: "list_all2 (\<lambda>g g'. refreshed g g' \<and>
        calculateGateOutput (gates s) (wires s) g = Some (gate_output g')) (gates s) (gates s')"
    by auto
  from l have r: "list_all2 refreshed (gates s) (gates s')"
    by (auto elim!: list_all2_mono)
  from list_all2_right_in[OF l assms(2)] obtain g where "refreshed g g'"
    "calculateGateOutput (gates s) (wires s) g = Some (gate_output g')" by blast
  from calculateGateOutput_refreshed[OF this(2) r this(1)] w show ?thesis by simp
qed

lemma updateCircuit_fixed:
  assumes "\<forall>g\<in>set (gates s). calculateGateOutput (gates s) (wires s) g = Some (gate_output g)"
  shows "updateCircuit s = Some s"
proof -
  have "map_calls (\<lambda>gate. map_option (\<lambda>b. gate\<lparr>gate_output := b\<rparr>)
            (calculateGateOutput (gates s) (wires s) gate)) (gates s) = Some (gates s)"
    unfolding map_calls_Some_iff using assms by (simp add: list_all2_same)
  then show ?thesis by (simp add: updateCircuit_def)
qed

lemma input_key_refreshed:
  "list_all2 refreshed gs gs' \<Longrightarrow> input_key gs' = input_key gs"
proof -
  assume "list_all2 refreshed gs gs'"
  then have "map (\<lambda>g. string_of_bool (gate_output g)) (filter (\<lambda>g. gate_type g = INPUT) gs')
           = map (\<lambda>g. string_of_bool (gate_output g)) (filter (\<lambda>g. gate_type g = INPUT) gs)"
    by (induction rule: list_all2_induct) (auto simp: refreshed_def same_shape_def)
  then show ?thesis by (simp add: input_key_def)
qed

lemma updateCircuit_effect_deps:
  assumes "updateCircuit s = Some s'"
  shows "effect_deps s' = effect_deps s"
proof -
  from updateCircuit_refreshed[OF assms] have "list_all2 refreshed (gates s) (gates s')"
    by (auto elim!: list_all2_mono)
  from input_key_refreshed[OF this] updateCircuit_SomeD[OF assms] show ?thesis
    by (auto simp: effect_deps_def)
qed

lemma step_refreshes:
  assumes "step e s = Some s'" and "effect_deps (handler e s) \<noteq> effect_deps s"
    and "g \<in> set (gates s')"
  shows "calculateGateOutput (gates s') (wires s') g = Some (gate_output g)"
  using assms by (auto simp: step_def useEffect_def intro: updateCircuit_fresh)

text \<open>
  Claim C8. A full pass that returns leaves a state that a second full pass returns
  unchanged, for every state (also with \<open>inputs\<close> entries that are set, where the
  evaluation does recurse); and in every reachable state the full pass returns.
\<close>

theorem updateCircuit_idempotent:
  "(updateCircuit s = Some s' \<longrightarrow> updateCircuit s' = Some s')
   \<and> (reachable s \<longrightarrow> (\<exists>s'. updateCircuit s = Some s'))"
proof -
  have "updateCircuit s' = Some s'" if "updateCircuit s = Some s'"
    using updateCircuit_fresh[OF that] by (intro updateCircuit_fixed ballI)
  moreover have "\<exists>s'. updateCircuit s = Some s'" if "reachable s"
    using reachable_well_formed[OF that] by (simp add: well_formed_updateCircuit_total)
  ultimately show ?thesis by blast
qed

theorem updateCircuit_idempotent_witness:
  "reachable (addGate NOT 1 0 0 initial)
   \<and> updateCircuit (addGate NOT 1 0 0 initial)
        = Some (initial\<lparr>gates := [(newGate NOT 1 0 0)\<lparr>gate_output := True\<rparr>]\<rparr>)
   \<and> updateCircuit (initial\<lparr>gates := [(newGate NOT 1 0 0)\<lparr>gate_output := True\<rparr>]\<rparr>)
        = Some (initial\<lparr>gates := [(newGate NOT 1 0 0)\<lparr>gate_output := True\<rparr>]\<rparr>)
   \<and> updateCircuit (initial\<lparr>
          gates := [(newGate INPUT 1 0 0)\<lparr>gate_output := True\<rparr>,
                    (newGate OUTPUT 2 0 0)\<lparr>gate_inputs := [Some ''gate-1'']\<rparr>],
          wires := [newWire 3 ''gate-1'' ''gate-2'' 0]\<rparr>)
        = Some (initial\<lparr>
          gates := [(newGate INPUT 1 0 0)\<lparr>gate_output := True\<rparr>,
                    (newGate OUTPUT 2 0 0)\<lparr>gate_inputs := [Some ''gate-1''], gate_output := True\<rparr>],
          wires := [newWire 3 ''gate-1'' ''gate-2'' 0]\<rparr>)
   \<and> updateCircuit (initial\<lparr>
          gates := [(newGate INPUT 1 0 0)\<lparr>gate_output := True\<rparr>,
                    (newGate OUTPUT 2 0 0)\<lparr>gate_inputs := [Some ''gate-1''], gate_output := True\<rparr>],
          wires := [newWire 3 ''gate-1'' ''gate-2'' 0]\<rparr>)
        = Some (initial\<lparr>
          gates := [(newGate INPUT 1 0 0)\<lparr>gate_output := True\<rparr>,
                    (newGate OUTPUT 2 0 0)\<lparr>gate_inputs := [Some ''gate-1''], gate_output := True\<rparr>],
          wires := [newWire 3 ''gate-1'' ''gate-2'' 0]\<rparr>)"
proof -
  have "run [ClickAddGate NOT 1 0 0] initial = Some (addGate NOT 1 0 0 initial)"
    by (simp add: run_simps)
  from run_reachable[OF reachable_initial this]
  have r: "reachable (addGate NOT 1 0 0 initial)" .
  have u: "updateCircuit (addGate NOT 1 0 0 initial)
        = Some (initial\<lparr>gates := [(newGate NOT 1 0 0)\<lparr>gate_output := True\<rparr>]\<rparr>)"
    by (simp add: run_simps)
  have v: "updateCircuit (initial\<lparr>
          gates := [(newGate INPUT 1 0 0)\<lparr>gate_output := True\<rparr>,
                    (newGate OUTPUT 2 0 0)\<lparr>gate_inputs := [Some ''gate-1'']\<rparr>],
          wires := [newWire 3 ''gate-1'' ''gate-2'' 0]\<rparr>)
        = Some (initial\<lparr>
          gates := [(newGate INPUT 1 0 0)\<lparr>gate_output := True\<rparr>,
                    (newGate OUTPUT 2 0 0)\<lparr>gate_inputs := [Some ''gate-1''], gate_output := True\<rparr>],
          wires := [newWire 3 ''gate-1'' ''gate-2'' 0]\<rparr>)"
    by (simp add: updateCircuit_def initial_def newGate_def newWire_def decimal_digit
        calculateGateOutput.simps slots_def)
  from updateCircuit_idempotent [THEN conjunct1, rule_format, OF u]
    updateCircuit_idempotent [THEN conjunct1, rule_format, OF v] r u v
  show ?thesis by simp
qed

section \<open>Where the code departs from the specification\<close>

text \<open>
  Claim C3. The effect that refreshes the outputs depends on the \<open>wires\<close> array and on
  the outputs of the INPUT gates only. Adding a NOT gate changes neither, so the effect
  does not run: after the event the gate's stored output is false while its evaluated
  output is true. (Events that do change a dependency leave every stored output equal
  to the evaluated one: \<open>step_refreshes\<close>.)
\<close>

theorem added_not_gate_is_stale:
  "enabled (ClickAddGate NOT 1 0 0) initial
   \<and> step (ClickAddGate NOT 1 0 0) initial = Some (addGate NOT 1 0 0 initial)
   \<and> gates (addGate NOT 1 0 0 initial) = [newGate NOT 1 0 0]
   \<and> gate_output (newGate NOT 1 0 0) = False
   \<and> calculateGateOutput (gates (addGate NOT 1 0 0 initial)) (wires (addGate NOT 1 0 0 initial))
        (newGate NOT 1 0 0) = Some True"
  by (simp add: run_simps)

text \<open>
  Claim C1. In the first session an INPUT whose value is true is wired to slot 0 of an
  OR gate. The evaluator returns false for the slot before it looks for the wire,
  because the entry of \<open>inputs\<close> is \<open>null\<close> (no handler ever writes it): the INPUT
  evaluates to true and the OR gate to false.
\<close>

theorem wired_or_gate_ignores_input:
  "run scenario_or initial = Some (state_after scenario_or)
   \<and> map gate_type (gates (state_after scenario_or)) = [INPUT, OR]
   \<and> gate_output (gates (state_after scenario_or) ! 0) = True
   \<and> map (\<lambda>w. (from_gateId w, to_gateId w, to_inputIndex w)) (wires (state_after scenario_or))
        = [(gate_id (gates (state_after scenario_or) ! 0),
            gate_id (gates (state_after scenario_or) ! 1), 0)]
   \<and> calculateGateOutput (gates (state_after scenario_or)) (wires (state_after scenario_or))
        (gates (state_after scenario_or) ! 0) = Some True
   \<and> calculateGateOutput (gates (state_after scenario_or)) (wires (state_after scenario_or))
        (gates (state_after scenario_or) ! 1) = Some False"
  by (simp add: state_after_or run_scenario_or all_null_eval)

end
